theory Spec2Isabelle
  imports Main "HOL-Library.Char_ord" "HOL-Library.List_Lexorder"
begin

section \<open>Python values and exceptions\<close>

text \<open>
  The store keeps JSON documents, so the values that reach it are Python's \<open>None\<close>,
  booleans, integers, strings, lists and string-keyed dictionaries. A dictionary is an
  association list in insertion order; Python never holds a key twice, which
  \<open>wf_pyval\<close> records. \<open>PObject\<close> stands for every object \<open>json.dumps\<close>
  rejects (a set, a \<open>datetime\<close>, an instance of a user class). Floating point numbers
  are left out of the embedding.
\<close>

datatype pyval =
    PNone
  | PBool bool
  | PInt int
  | PStr string
  | PList "pyval list"
  | PDict "(string \<times> pyval) list"
  | PObject nat

datatype error =
    TypeError
  | JSONDecodeError
  | AttributeError
  | OperationalError
  | ProgrammingError

fun wf_pyval :: "pyval \<Rightarrow> bool"
  and wf_pyvals :: "pyval list \<Rightarrow> bool"
  and wf_items :: "(string \<times> pyval) list \<Rightarrow> bool" where
  "wf_pyval (PList xs) = wf_pyvals xs"
| "wf_pyval (PDict kvs) = (distinct (map fst kvs) \<and> wf_items kvs)"
| "wf_pyval v = True"
| "wf_pyvals [] = True"
| "wf_pyvals (x # xs) = (wf_pyval x \<and> wf_pyvals xs)"
| "wf_items [] = True"
| "wf_items (kv # kvs) = (wf_pyval (snd kv) \<and> wf_items kvs)"

section \<open>json.dumps\<close>

definition dq :: char where
  "dq = CHR 0x22"

definition bs :: char where
  "bs = CHR 0x5C"

definition hex_digit :: "nat \<Rightarrow> char" where
  "hex_digit n = (if n < 10 then char_of (48 + n) else char_of (87 + n))"

text \<open>\<open>py_encode_basestring_ascii\<close>: the escape of one character under
  \<open>ensure_ascii=True\<close>; everything outside the printable ASCII range becomes
  \<open>\u00xx\<close>.\<close>

definition escape_char :: "char \<Rightarrow> string" where
  "escape_char c =
     (if c = dq then [bs, dq]
      else if c = bs then [bs, bs]
      else if c = CHR 0x0A then [bs, CHR ''n'']
      else if c = CHR 0x0D then [bs, CHR ''r'']
      else if c = CHR 0x09 then [bs, CHR ''t'']
      else if c = CHR 0x08 then [bs, CHR ''b'']
      else if c = CHR 0x0C then [bs, CHR ''f'']
      else if (of_char c :: nat) < 32 \<or> 126 < (of_char c :: nat)
        then [bs, CHR ''u'', CHR ''0'', CHR ''0'',
              hex_digit ((of_char c :: nat) div 16), hex_digit ((of_char c :: nat) mod 16)]
      else [c])"

definition encode_basestring :: "string \<Rightarrow> string" where
  "encode_basestring s = dq # concat (map escape_char s) @ [dq]"

text \<open>\<open>int.__repr__\<close>: decimal digits, most significant first, a leading minus sign.\<close>

function show_nat :: "nat \<Rightarrow> string" where
  "show_nat n = (if n < 10 then [char_of (48 + n)]
                 else show_nat (n div 10) @ [char_of (48 + n mod 10)])"
  by pat_completeness auto
termination
  by (relation "measure id") auto

definition show_int :: "int \<Rightarrow> string" where
  "show_int i = (if i < 0 then CHR ''-'' # show_nat (nat (- i)) else show_nat (nat i))"

text \<open>\<open>json.dumps\<close> with the default separators \<open>', '\<close> and \<open>': '\<close>. An object that
  is not JSON serializable raises \<open>TypeError\<close>.\<close>

fun dumps :: "pyval \<Rightarrow> error + string"
  and dumps_list :: "pyval list \<Rightarrow> error + string"
  and dumps_items :: "(string \<times> pyval) list \<Rightarrow> error + string" where
  "dumps PNone = Inr ''null''"
| "dumps (PBool b) = Inr (if b then ''true'' else ''false'')"
| "dumps (PInt i) = Inr (show_int i)"
| "dumps (PStr s) = Inr (encode_basestring s)"
| "dumps (PList xs) =
     (case dumps_list xs of Inl e \<Rightarrow> Inl e | Inr s \<Rightarrow> Inr (CHR ''['' # s @ '']''))"
| "dumps (PDict kvs) =
     (case dumps_items kvs of Inl e \<Rightarrow> Inl e | Inr s \<Rightarrow> Inr (CHR ''{'' # s @ ''}''))"
| "dumps (PObject n) = Inl TypeError"
| "dumps_list [] = Inr []"
| "dumps_list [x] = dumps x"
| "dumps_list (x # y # ys) =
     (case dumps x of Inl e \<Rightarrow> Inl e
      | Inr s \<Rightarrow> (case dumps_list (y # ys) of Inl e \<Rightarrow> Inl e | Inr t \<Rightarrow> Inr (s @ '', '' @ t)))"
| "dumps_items [] = Inr []"
| "dumps_items [kv] =
     (case dumps (snd kv) of Inl e \<Rightarrow> Inl e
      | Inr s \<Rightarrow> Inr (encode_basestring (fst kv) @ '': '' @ s))"
| "dumps_items (kv # kv' # kvs) =
     (case dumps (snd kv) of Inl e \<Rightarrow> Inl e
      | Inr s \<Rightarrow> (case dumps_items (kv' # kvs) of Inl e \<Rightarrow> Inl e
                  | Inr t \<Rightarrow> Inr (encode_basestring (fst kv) @ '': '' @ s @ '', '' @ t)))"

text \<open>\<open>sort_keys=True\<close>: every dictionary is written with its items sorted by key.\<close>

fun sort_keys :: "pyval \<Rightarrow> pyval"
  and sort_keys_list :: "pyval list \<Rightarrow> pyval list"
  and sort_keys_items :: "(string \<times> pyval) list \<Rightarrow> (string \<times> pyval) list" where
  "sort_keys (PList xs) = PList (sort_keys_list xs)"
| "sort_keys (PDict kvs) = PDict (sort_key fst (sort_keys_items kvs))"
| "sort_keys v = v"
| "sort_keys_list [] = []"
| "sort_keys_list (x # xs) = sort_keys x # sort_keys_list xs"
| "sort_keys_items [] = []"
| "sort_keys_items (kv # kvs) = (fst kv, sort_keys (snd kv)) # sort_keys_items kvs"

definition dumps_sorted :: "pyval \<Rightarrow> error + string" where
  "dumps_sorted v = dumps (sort_keys v)"

section \<open>json.loads\<close>

text \<open>
  The decoder of the standard library, for the documents the embedding covers: \<open>null\<close>,
  \<open>true\<close>, \<open>false\<close>, integers, strings, arrays and objects, with optional white space
  between tokens. A number with a fraction or an exponent is a float and is rejected here.
  The recursion of the decoder is bounded by the length of its input, given as fuel.
\<close>

definition is_ws :: "char \<Rightarrow> bool" where
  "is_ws c = (c = CHR '' '' \<or> c = CHR 0x09 \<or> c = CHR 0x0A \<or> c = CHR 0x0D)"

definition skip_ws :: "string \<Rightarrow> string" where
  "skip_ws s = dropWhile is_ws s"

definition is_digit :: "char \<Rightarrow> bool" where
  "is_digit c = (48 \<le> (of_char c :: nat) \<and> (of_char c :: nat) \<le> 57)"

definition digit_val :: "char \<Rightarrow> nat" where
  "digit_val c = of_char c - 48"

definition hex_val :: "char \<Rightarrow> nat option" where
  "hex_val c =
     (let n = (of_char c :: nat) in
      if 48 \<le> n \<and> n \<le> 57 then Some (n - 48)
      else if 97 \<le> n \<and> n \<le> 102 then Some (n - 87)
      else if 65 \<le> n \<and> n \<le> 70 then Some (n - 55)
      else None)"

definition unescape :: "char \<Rightarrow> char option" where
  "unescape e =
     (if e = dq then Some dq
      else if e = bs then Some bs
      else if e = CHR ''/'' then Some (CHR ''/'')
      else if e = CHR ''b'' then Some (CHR 0x08)
      else if e = CHR ''f'' then Some (CHR 0x0C)
      else if e = CHR ''n'' then Some (CHR 0x0A)
      else if e = CHR ''r'' then Some (CHR 0x0D)
      else if e = CHR ''t'' then Some (CHR 0x09)
      else None)"

definition hex4 :: "char \<Rightarrow> char \<Rightarrow> char \<Rightarrow> char \<Rightarrow> nat option" where
  "hex4 a b c d =
     (case (hex_val a, hex_val b, hex_val c, hex_val d) of
        (Some w, Some x, Some y, Some z) \<Rightarrow> Some (4096 * w + 256 * x + 16 * y + z)
      | _ \<Rightarrow> None)"

text \<open>\<open>py_scanstring\<close> in strict mode, called after the opening quote: the decoded
  string and the input after the closing quote. A code point above 255 does not fit the
  8-bit characters of the embedding and is rejected.\<close>

fun scanstring :: "string \<Rightarrow> (string \<times> string) option" where
  "scanstring [] = None"
| "scanstring (c # cs) =
     (if c = dq then Some ([], cs)
      else if c = bs then
        (case cs of
           [] \<Rightarrow> None
         | e # cs' \<Rightarrow>
             if e = CHR ''u'' then
               (case cs' of
                  h1 # h2 # h3 # h4 # cs'' \<Rightarrow>
                    (case hex4 h1 h2 h3 h4 of
                       None \<Rightarrow> None
                     | Some n \<Rightarrow>
                         if n < 256 then
                           (case scanstring cs'' of
                              None \<Rightarrow> None
                            | Some (str, r) \<Rightarrow> Some (char_of n # str, r))
                         else None)
                | _ \<Rightarrow> None)
             else
               (case unescape e of
                  None \<Rightarrow> None
                | Some ch \<Rightarrow>
                    (case scanstring cs' of
                       None \<Rightarrow> None
                     | Some (str, r) \<Rightarrow> Some (ch # str, r))))
      else if (of_char c :: nat) < 32 then None
      else (case scanstring cs of
              None \<Rightarrow> None
            | Some (str, r) \<Rightarrow> Some (c # str, r)))"

text \<open>The integer part of \<open>NUMBER_RE\<close>: an optional minus sign, then \<open>0\<close> or a digit
  sequence without a leading zero.\<close>

definition scan_int :: "string \<Rightarrow> (int \<times> string) option" where
  "scan_int s =
     (let neg = (s \<noteq> [] \<and> hd s = CHR ''-'');
          s1 = (if neg then tl s else s)
      in case s1 of
           [] \<Rightarrow> None
         | d # r \<Rightarrow>
             if \<not> is_digit d then None
             else
               let ds = (if d = CHR ''0'' then [d] else d # takeWhile is_digit r);
                   rest = (if d = CHR ''0'' then r else dropWhile is_digit r);
                   n = foldl (\<lambda>a c. 10 * a + digit_val c) 0 ds
               in if rest \<noteq> [] \<and> hd rest \<in> {CHR ''.'', CHR ''e'', CHR ''E''} then None
                  else Some (if neg then - int n else int n, rest))"

text \<open>A Python dictionary built from the pairs of an object: a repeated key keeps its
  first position and takes the last value.\<close>

fun dict_set :: "(string \<times> pyval) list \<Rightarrow> string \<Rightarrow> pyval \<Rightarrow> (string \<times> pyval) list" where
  "dict_set [] k v = [(k, v)]"
| "dict_set (kv # kvs) k v = (if fst kv = k then (k, v) # kvs else kv # dict_set kvs k v)"

definition make_dict :: "(string \<times> pyval) list \<Rightarrow> (string \<times> pyval) list" where
  "make_dict pairs = foldl (\<lambda>d kv. dict_set d (fst kv) (snd kv)) [] pairs"

definition dict_get :: "(string \<times> pyval) list \<Rightarrow> string \<Rightarrow> pyval \<Rightarrow> pyval" where
  "dict_get d k dflt = (case map_of d k of None \<Rightarrow> dflt | Some v \<Rightarrow> v)"

fun parse_value :: "nat \<Rightarrow> string \<Rightarrow> (pyval \<times> string) option"
  and parse_elems :: "nat \<Rightarrow> string \<Rightarrow> (pyval list \<times> string) option"
  and parse_members :: "nat \<Rightarrow> string \<Rightarrow> ((string \<times> pyval) list \<times> string) option" where
  "parse_value 0 s = None"
| "parse_value (Suc n) s =
     (case s of
        [] \<Rightarrow> None
      | c # cs \<Rightarrow>
          if c = dq then
            (case scanstring cs of None \<Rightarrow> None | Some (str, r) \<Rightarrow> Some (PStr str, r))
          else if c = CHR ''{'' then
            (case skip_ws cs of
               [] \<Rightarrow> None
             | c' # r \<Rightarrow>
                 if c' = CHR ''}'' then Some (PDict [], r)
                 else (case parse_members n (c' # r) of
                         None \<Rightarrow> None
                       | Some (kvs, r') \<Rightarrow> Some (PDict (make_dict kvs), r')))
          else if c = CHR ''['' then
            (case skip_ws cs of
               [] \<Rightarrow> None
             | c' # r \<Rightarrow>
                 if c' = CHR '']'' then Some (PList [], r)
                 else (case parse_elems n (c' # r) of
                         None \<Rightarrow> None
                       | Some (vs, r') \<Rightarrow> Some (PList vs, r')))
          else if take 4 s = ''null'' then Some (PNone, drop 4 s)
          else if take 4 s = ''true'' then Some (PBool True, drop 4 s)
          else if take 5 s = ''false'' then Some (PBool False, drop 5 s)
          else (case scan_int s of None \<Rightarrow> None | Some (i, r) \<Rightarrow> Some (PInt i, r)))"
| "parse_elems 0 s = None"
| "parse_elems (Suc n) s =
     (case parse_value n s of
        None \<Rightarrow> None
      | Some (v, r) \<Rightarrow>
          (case skip_ws r of
             [] \<Rightarrow> None
           | c # r' \<Rightarrow>
               if c = CHR '']'' then Some ([v], r')
               else if c = CHR '','' then
                 (case parse_elems n (skip_ws r') of
                    None \<Rightarrow> None
                  | Some (vs, r'') \<Rightarrow> Some (v # vs, r''))
               else None))"
| "parse_members 0 s = None"
| "parse_members (Suc n) s =
     (case s of
        [] \<Rightarrow> None
      | c # cs \<Rightarrow>
          if c \<noteq> dq then None
          else
            (case scanstring cs of
               None \<Rightarrow> None
             | Some (k, r) \<Rightarrow>
                 (case skip_ws r of
                    [] \<Rightarrow> None
                  | c1 # r1 \<Rightarrow>
                      if c1 \<noteq> CHR '':'' then None
                      else
                        (case parse_value n (skip_ws r1) of
                           None \<Rightarrow> None
                         | Some (v, r2) \<Rightarrow>
                             (case skip_ws r2 of
                                [] \<Rightarrow> None
                              | c2 # r3 \<Rightarrow>
                                  if c2 = CHR ''}'' then Some ([(k, v)], r3)
                                  else if c2 = CHR '','' then
                                    (case parse_members n (skip_ws r3) of
                                       None \<Rightarrow> None
                                     | Some (kvs, r4) \<Rightarrow> Some ((k, v) # kvs, r4))
                                  else None)))))"

definition loads :: "string \<Rightarrow> error + pyval" where
  "loads s =
     (case parse_value (length s) (skip_ws s) of
        None \<Rightarrow> Inl JSONDecodeError
      | Some (v, r) \<Rightarrow> if skip_ws r = [] then Inr v else Inl JSONDecodeError)"

section \<open>The key-value store\<close>

text \<open>
  A row of the table \<open>kv (key TEXT PRIMARY KEY, value TEXT, ttl integer)\<close>. The table is
  the list of its rows in the order of their row ids; \<open>INSERT OR REPLACE\<close> deletes the
  row that holds the key and appends the new one. The object keeps the table and the
  buffer of \<open>put_cached\<close>: the parameters of the pending rows, three for each row, are
  kept as one triple for each row.
\<close>

type_synonym row = "string \<times> string \<times> int option"

definition row_key :: "row \<Rightarrow> string" where
  "row_key r = fst r"

definition row_value :: "row \<Rightarrow> string" where
  "row_value r = fst (snd r)"

definition row_ttl :: "row \<Rightarrow> int option" where
  "row_ttl r = snd (snd r)"

record KV =
  kv :: "row list"
  cache_values :: "row list"
  cache_row_count :: nat

definition init :: "row list \<Rightarrow> KV" where
  "init db = \<lparr>kv = db, cache_values = [], cache_row_count = 0\<rparr>"

definition encode_value :: "pyval \<Rightarrow> error + string" where
  "encode_value v = dumps (PDict [(''value'', v)])"

definition decode_value :: "string \<Rightarrow> error + pyval" where
  "decode_value s =
     (case loads s of
        Inl e \<Rightarrow> Inl e
      | Inr (PDict d) \<Rightarrow> Inr (dict_get d ''value'' PNone)
      | Inr _ \<Rightarrow> Inl AttributeError)"

text \<open>The clock is read in microseconds since the epoch, the resolution of
  \<open>datetime.now()\<close>; \<open>int(d.timestamp())\<close> truncates towards zero.\<close>

definition timestamp_int :: "int \<Rightarrow> int" where
  "timestamp_int us = (if 0 \<le> us then us div 1000000 else - ((- us) div 1000000))"

definition expiry :: "nat \<Rightarrow> int option \<Rightarrow> int option" where
  "expiry now ttl_seconds =
     (case ttl_seconds of
        None \<Rightarrow> None
      | Some t \<Rightarrow> if t \<noteq> 0 then Some (timestamp_int (int now + t * 1000000)) else None)"

definition insert_or_replace :: "row \<Rightarrow> row list \<Rightarrow> row list" where
  "insert_or_replace r db = filter (\<lambda>x. row_key x \<noteq> row_key r) db @ [r]"

definition put :: "nat \<Rightarrow> string \<Rightarrow> pyval \<Rightarrow> int option \<Rightarrow> KV \<Rightarrow> (error + unit) \<times> KV" where
  "put now key val ttl_seconds s =
     (let ttl = expiry now ttl_seconds
      in case encode_value val of
           Inl e \<Rightarrow> (Inl e, s)
         | Inr enc \<Rightarrow> (Inr (), s\<lparr>kv := insert_or_replace (key, enc, ttl) (kv s)\<rparr>))"

definition unexpired :: "int \<Rightarrow> row \<Rightarrow> bool" where
  "unexpired now_seconds r = (case row_ttl r of None \<Rightarrow> True | Some t \<Rightarrow> now_seconds < t)"

text \<open>The query of \<open>get\<close> with \<open>fetchone\<close>: the value of the first row
  that holds the key and has not expired.\<close>

definition select_value :: "nat \<Rightarrow> string \<Rightarrow> row list \<Rightarrow> string option" where
  "select_value now key db =
     (let now_seconds = timestamp_int (int now)
      in case filter (\<lambda>r. row_key r = key \<and> unexpired now_seconds r) db of
           [] \<Rightarrow> None
         | r # rs \<Rightarrow> Some (row_value r))"

text \<open>\<open>if not result\<close> holds when no row was found and when the stored text is the
  empty string.\<close>

definition get :: "nat \<Rightarrow> string \<Rightarrow> pyval \<Rightarrow> bool \<Rightarrow> KV \<Rightarrow> (error + pyval) \<times> KV" where
  "get now key dflt save_default_if_not_set s =
     (case select_value now key (kv s) of
        Some (c # cs) \<Rightarrow> (decode_value (c # cs), s)
      | _ \<Rightarrow>
          if save_default_if_not_set then
            (case put now key dflt None s of
               (Inl e, s') \<Rightarrow> (Inl e, s')
             | (Inr u, s') \<Rightarrow> (Inr dflt, s'))
          else (Inr dflt, s))"

text \<open>SQLite's \<open>LIKE\<close> with its defaults: \<open>%\<close> matches any run of characters,
  \<open>_\<close> any one character, and ASCII letters match without regard to case.\<close>

definition lower :: "char \<Rightarrow> char" where
  "lower c = (if 65 \<le> (of_char c :: nat) \<and> (of_char c :: nat) \<le> 90
              then char_of ((of_char c :: nat) + 32) else c)"

fun like :: "string \<Rightarrow> string \<Rightarrow> bool" where
  "like [] t = (t = [])"
| "like (p # ps) [] = (p = CHR ''%'' \<and> like ps [])"
| "like (p # ps) (c # cs) =
     (if p = CHR ''%'' then like ps (c # cs) \<or> like (p # ps) cs
      else (p = CHR ''_'' \<or> lower p = lower c) \<and> like ps cs)"

definition decode_rows :: "row list \<Rightarrow> error + (string \<times> pyval) list" where
  "decode_rows rs =
     foldr (\<lambda>r acc. case decode_value (row_value r) of
                       Inl e \<Rightarrow> Inl e
                     | Inr v \<Rightarrow> (case acc of Inl e \<Rightarrow> Inl e | Inr xs \<Rightarrow> Inr ((row_key r, v) # xs)))
           rs (Inr [])"

definition select_partial :: "nat \<Rightarrow> string \<Rightarrow> row list \<Rightarrow> row list" where
  "select_partial now beginning db =
     sort_key row_value
       (filter (\<lambda>r. like (beginning @ ''%'') (row_key r) \<and> unexpired (timestamp_int (int now)) r) db)"

definition get_partial :: "nat \<Rightarrow> string \<Rightarrow> KV \<Rightarrow> error + (string \<times> pyval) list" where
  "get_partial now beginning s = decode_rows (select_partial now beginning (kv s))"

definition delete :: "string \<Rightarrow> KV \<Rightarrow> KV" where
  "delete key s = s\<lparr>kv := filter (\<lambda>r. row_key r \<noteq> key) (kv s)\<rparr>"

definition delete_partial :: "string \<Rightarrow> KV \<Rightarrow> KV" where
  "delete_partial beginning s =
     s\<lparr>kv := filter (\<lambda>r. \<not> like (beginning @ ''%'') (row_key r)) (kv s)\<rparr>"

definition put_cached :: "nat \<Rightarrow> string \<Rightarrow> pyval \<Rightarrow> int option \<Rightarrow> KV \<Rightarrow> (error + unit) \<times> KV" where
  "put_cached now key val ttl_seconds s =
     (let ttl = expiry now ttl_seconds
      in case encode_value val of
           Inl e \<Rightarrow> (Inl e, s)
         | Inr enc \<Rightarrow>
             (Inr (), s\<lparr>cache_values := cache_values s @ [(key, enc, ttl)],
                        cache_row_count := cache_row_count s + 1\<rparr>))"

text \<open>\<open>commit_cached\<close> sends one \<open>INSERT OR REPLACE\<close> with \<open>cache_row_count\<close> groups
  of three placeholders. SQLite refuses a statement with more than \<open>max_vars\<close>
  placeholders (\<open>SQLITE_MAX_VARIABLE_NUMBER\<close>) and the driver refuses a parameter list
  of another length than the placeholders; a refused statement writes nothing and the
  exception leaves the method before the buffer is reset.\<close>

definition commit_cached :: "nat \<Rightarrow> KV \<Rightarrow> (error + unit) \<times> KV" where
  "commit_cached max_vars s =
     (if cache_values s = [] then (Inr (), s)
      else if max_vars < 3 * cache_row_count s then (Inl OperationalError, s)
      else if 3 * length (cache_values s) \<noteq> 3 * cache_row_count s then (Inl ProgrammingError, s)
      else (Inr (), s\<lparr>kv := foldl (\<lambda>db r. insert_or_replace r db) (kv s) (cache_values s),
                       cache_values := [],
                       cache_row_count := 0\<rparr>))"

text \<open>Python's \<open>str.startswith\<close>.\<close>

definition startswith :: "string \<Rightarrow> string \<Rightarrow> bool" where
  "startswith k p = (take (length p) k = p)"

section \<open>Memoization\<close>

text \<open>A decorated function: its module, its name and what a call returns or raises.
  SHA-1 is a parameter of the definitions below.\<close>

record callable =
  func_module :: string
  func_name :: string
  func_call :: "pyval list \<Rightarrow> (string \<times> pyval) list \<Rightarrow> error + pyval"

definition hash_function_name :: "(string \<Rightarrow> string) \<Rightarrow> callable \<Rightarrow> string" where
  "hash_function_name sha1 func = sha1 (func_module func @ ''.'' @ func_name func)"

definition hash_function_args ::
  "(string \<Rightarrow> string) \<Rightarrow> pyval list \<Rightarrow> (string \<times> pyval) list \<Rightarrow> error + string" where
  "hash_function_args sha1 args kwargs =
     (case dumps_sorted (PList args) of
        Inl e \<Rightarrow> Inl e
      | Inr a \<Rightarrow>
          (case dumps_sorted (PDict kwargs) of
             Inl e \<Rightarrow> Inl e
           | Inr k \<Rightarrow> Inr (sha1 (a @ ''-'' @ k))))"

definition memo_key :: "string \<Rightarrow> string \<Rightarrow> string" where
  "memo_key hashed_function_name hashed_encoded_args =
     ''memoize.'' @ hashed_function_name @ ''.'' @ hashed_encoded_args"

text \<open>One call of the wrapper on the table \<open>db\<close> of the database file: the value
  returned or the exception raised, how often the wrapped function was invoked, and the
  table when the store is closed. The clock is read at \<open>t_get\<close> by \<open>kv.get\<close> and at
  \<open>t_put\<close> by \<open>kv.put\<close>.\<close>

definition wrapper ::
  "(string \<Rightarrow> string) \<Rightarrow> int \<Rightarrow> callable \<Rightarrow> nat \<Rightarrow> nat \<Rightarrow> pyval list \<Rightarrow> (string \<times> pyval) list
     \<Rightarrow> row list \<Rightarrow> (error + pyval) \<times> nat \<times> row list" where
  "wrapper sha1 ttl_seconds func t_get t_put args kwargs db =
     (let hashed_function_name = hash_function_name sha1 func
      in case hash_function_args sha1 args kwargs of
           Inl e \<Rightarrow> (Inl e, 0, db)
         | Inr hashed_encoded_args \<Rightarrow>
             (case get t_get (memo_key hashed_function_name hashed_encoded_args) PNone False (init db) of
                (Inl e, s1) \<Rightarrow> (Inl e, 0, kv s1)
              | (Inr response, s1) \<Rightarrow>
                  if response \<noteq> PNone then (Inr response, 0, kv s1)
                  else
                    (case func_call func args kwargs of
                       Inl e \<Rightarrow> (Inl e, 1, kv s1)
                     | Inr result \<Rightarrow>
                         (case put t_put (memo_key hashed_function_name hashed_encoded_args)
                                 result (Some ttl_seconds) s1 of
                            (Inl e, s2) \<Rightarrow> (Inl e, 1, kv s2)
                          | (Inr u, s2) \<Rightarrow> (Inr result, 1, kv s2)))))"

definition delete_memoized :: "(string \<Rightarrow> string) \<Rightarrow> callable \<Rightarrow> row list \<Rightarrow> row list" where
  "delete_memoized sha1 func db =
     kv (delete_partial (''memoize.'' @ hash_function_name sha1 func) (init db))"

text \<open>A function that returns the same value on every call.\<close>

definition const_func :: "pyval \<Rightarrow> callable" where
  "const_func r = \<lparr>func_module = ''app'', func_name = ''f'', func_call = (\<lambda>args kwargs. Inr r)\<rparr>"

section \<open>Auxiliary predicates\<close>

text \<open>A value \<open>json.dumps\<close> accepts.\<close>

definition serializable :: "pyval \<Rightarrow> bool" where
  "serializable v = (case dumps v of Inl e \<Rightarrow> False | Inr s \<Rightarrow> True)"

text \<open>What may follow a number in a document: not a digit, and nothing that would make
  the number a float.\<close>

definition terminated :: "string \<Rightarrow> bool" where
  "terminated rest =
     (rest = [] \<or> \<not> is_digit (hd rest) \<and> hd rest \<notin> {CHR ''.'', CHR ''e'', CHR ''E''})"

text \<open>The characters a document written by \<open>dumps\<close> starts with.\<close>

definition value_start :: "char \<Rightarrow> bool" where
  "value_start c = (c = dq \<or> c = CHR ''{'' \<or> c = CHR ''['' \<or> c = CHR ''n'' \<or> c = CHR ''t''
                    \<or> c = CHR ''f'' \<or> c = CHR ''-'' \<or> is_digit c)"

section \<open>Integers and strings survive the round trip\<close>

declare show_nat.simps [simp del]

lemma char_of_eq_nat: "n < 256 \<Longrightarrow> (char_of (n::nat) = c) = (n = of_char c)"
  by (auto simp: char_of_eq_iff take_bit_eq_mod)

lemma is_digit_char_of: "d < 10 \<Longrightarrow> is_digit (char_of (48 + (d::nat)))"
  by (simp add: is_digit_def)

lemma digit_val_char_of: "d < 10 \<Longrightarrow> digit_val (char_of (48 + (d::nat))) = d"
  by (simp add: digit_val_def)

lemma show_nat_digits: "\<forall>c \<in> set (show_nat n). is_digit c"
proof (induction n rule: show_nat.induct)
  case (1 n)
  show ?case
  proof (cases "n < 10")
    case True
    then show ?thesis by (subst show_nat.simps) (simp add: is_digit_char_of)
  next
    case False
    then show ?thesis using 1
      by (subst show_nat.simps) (simp add: is_digit_char_of)
  qed
qed

lemma show_nat_nonempty: "show_nat n \<noteq> []"
  by (subst show_nat.simps) simp

lemma show_nat_value: "foldl (\<lambda>a c. 10 * a + digit_val c) 0 (show_nat n) = n"
proof (induction n rule: show_nat.induct)
  case (1 n)
  show ?case
  proof (cases "n < 10")
    case True
    then show ?thesis by (subst show_nat.simps) (simp add: digit_val_char_of)
  next
    case False
    then show ?thesis using 1
      by (subst show_nat.simps) (simp add: digit_val_char_of)
  qed
qed

lemma show_nat_hd_zero: "hd (show_nat n) = CHR ''0'' \<Longrightarrow> n = 0"
proof (induction n rule: show_nat.induct)
  case (1 n)
  show ?case
  proof (cases "n < 10")
    case True
    with 1(2) have "char_of (48 + n) = CHR ''0''"
      by (subst (asm) show_nat.simps) simp
    with True show ?thesis by (simp add: char_of_eq_nat)
  next
    case False
    with 1(2) have "hd (show_nat (n div 10)) = CHR ''0''"
      by (subst (asm) show_nat.simps) (simp add: show_nat_nonempty)
    with 1(1) False have "n div 10 = 0" by simp
    with False show ?thesis by simp
  qed
qed

lemma show_nat_zero: "show_nat 0 = ''0''"
  by (subst show_nat.simps) (simp add: char_of_eq_nat)

lemma takeWhile_digits:
  "\<forall>c \<in> set ds. is_digit c \<Longrightarrow> rest = [] \<or> \<not> is_digit (hd rest) \<Longrightarrow>
     takeWhile is_digit (ds @ rest) = ds \<and> dropWhile is_digit (ds @ rest) = rest"
  by (induction ds) (auto simp: neq_Nil_conv takeWhile_eq_Nil_iff dropWhile_eq_self_iff)

lemma scan_int_digits:
  assumes "terminated rest" and sn: "show_nat n = d # ds"
  shows "scan_int (d # ds @ rest) = Some (int n, rest)"
    and "scan_int (CHR ''-'' # d # ds @ rest) = Some (- int n, rest)"
proof -
  have digs: "is_digit d" "\<forall>c \<in> set ds. is_digit c"
    using show_nat_digits [of n] sn by auto
  have nominus: "d \<noteq> CHR ''-''"
    using digs(1) by (auto simp: is_digit_def)
  have t: "rest = [] \<or> \<not> is_digit (hd rest)"
    using assms by (auto simp: terminated_def)
  have t2: "\<not> (rest \<noteq> [] \<and> hd rest \<in> {CHR ''.'', CHR ''e'', CHR ''E''})"
    using assms by (auto simp: terminated_def)
  have val: "foldl (\<lambda>a c. 10 * a + digit_val c) 0 (d # ds) = n"
    using show_nat_value [of n] sn by simp
  have "scan_int (d # ds @ rest) = Some (int n, rest) \<and>
        scan_int (CHR ''-'' # d # ds @ rest) = Some (- int n, rest)"
  proof (cases "d = CHR ''0''")
    case True
    then have n0: "n = 0" using show_nat_hd_zero [of n] sn by simp
    then have "ds = []" using sn show_nat_zero by simp
    with True t2 digs(1) n0 show ?thesis
      by (simp add: scan_int_def digit_val_def)
  next
    case False
    have tw: "takeWhile is_digit (ds @ rest) = ds" "dropWhile is_digit (ds @ rest) = rest"
      using takeWhile_digits [OF digs(2) t] by auto
    from False t2 nominus digs(1) val show ?thesis
      by (simp add: scan_int_def Let_def tw del: dropWhile_eq_Nil_conv)
  qed
  then show "scan_int (d # ds @ rest) = Some (int n, rest)"
    and "scan_int (CHR ''-'' # d # ds @ rest) = Some (- int n, rest)" by auto
qed

lemma scan_int_show_int:
  assumes "terminated rest"
  shows "scan_int (show_int i @ rest) = Some (i, rest)"
proof -
  obtain d ds where sn: "show_nat (nat \<bar>i\<bar>) = d # ds"
    using show_nat_nonempty by (cases "show_nat (nat \<bar>i\<bar>)") auto
  show ?thesis
  proof (cases "i < 0")
    case False
    then have "nat i = nat \<bar>i\<bar>" by simp
    with False show ?thesis
      using scan_int_digits(1) [OF assms sn] sn by (simp add: show_int_def)
  next
    case True
    then have "nat (- i) = nat \<bar>i\<bar>" by simp
    with True show ?thesis
      using scan_int_digits(2) [OF assms sn] sn by (simp add: show_int_def)
  qed
qed

lemma show_int_hd:
  "show_int i \<noteq> [] \<and> (hd (show_int i) = CHR ''-'' \<or> is_digit (hd (show_int i)))"
proof -
  have "\<And>n. is_digit (hd (show_nat n))"
    using show_nat_digits show_nat_nonempty by (metis list.set_sel(1))
  then show ?thesis
    by (simp add: show_int_def show_nat_nonempty)
qed

lemma hex_val_hex_digit: "m < 16 \<Longrightarrow> hex_val (hex_digit m) = Some m"
  by (simp add: hex_val_def hex_digit_def Let_def)

lemma hex_val_zero: "hex_val (CHR ''0'') = Some 0"
  by (simp add: hex_val_def)

lemma hex4_escape:
  "hex4 (CHR ''0'') (CHR ''0'') (hex_digit ((of_char c :: nat) div 16)) (hex_digit ((of_char c :: nat) mod 16))
     = Some (of_char c)"
proof -
  have "(of_char c :: nat) div 16 < 16"
    using nat_of_char_less_256 [of c] by (simp add: less_mult_imp_div_less)
  then show ?thesis
    by (simp add: hex4_def hex_val_zero hex_val_hex_digit)
qed

lemma scanstring_escape_char:
  "scanstring (escape_char c @ t) =
     (case scanstring t of None \<Rightarrow> None | Some (str, r) \<Rightarrow> Some (c # str, r))"
proof -
  consider (q) "c = dq" | (b) "c = bs" | (n) "c = CHR 0x0A" | (r) "c = CHR 0x0D"
    | (t) "c = CHR 0x09" | (b8) "c = CHR 0x08" | (f) "c = CHR 0x0C"
    | (u) "c \<notin> {dq, bs, CHR 0x0A, CHR 0x0D, CHR 0x09, CHR 0x08, CHR 0x0C}"
          "(of_char c :: nat) < 32 \<or> 126 < (of_char c :: nat)"
    | (plain) "c \<noteq> dq" "c \<noteq> bs" "32 \<le> (of_char c :: nat)" "(of_char c :: nat) \<le> 126"
    by fastforce
  then show ?thesis
  proof cases
    case q
    then show ?thesis by (simp add: escape_char_def unescape_def dq_def bs_def split: option.split)
  next
    case b
    then show ?thesis by (simp add: escape_char_def unescape_def dq_def bs_def split: option.split)
  next
    case n
    then show ?thesis by (simp add: escape_char_def unescape_def dq_def bs_def split: option.split)
  next
    case r
    then show ?thesis by (simp add: escape_char_def unescape_def dq_def bs_def split: option.split)
  next
    case t
    then show ?thesis by (simp add: escape_char_def unescape_def dq_def bs_def split: option.split)
  next
    case b8
    then show ?thesis by (simp add: escape_char_def unescape_def dq_def bs_def split: option.split)
  next
    case f
    then show ?thesis by (simp add: escape_char_def unescape_def dq_def bs_def split: option.split)
  next
    case u
    then have "escape_char c = [bs, CHR ''u'', CHR ''0'', CHR ''0'',
              hex_digit ((of_char c :: nat) div 16), hex_digit ((of_char c :: nat) mod 16)]"
      by (simp add: escape_char_def)
    then show ?thesis
      by (simp add: hex4_escape dq_def bs_def split: option.split)
  next
    case plain
    then have "escape_char c = [c]"
      by (auto simp: escape_char_def)
    with plain show ?thesis by simp
  qed
qed

lemma scanstring_escape:
  "scanstring (concat (map escape_char s) @ dq # rest) = Some (s, rest)"
  by (induction s) (simp_all add: scanstring_escape_char)

lemma scanstring_encode_basestring:
  "scanstring (tl (encode_basestring s) @ rest) = Some (s, rest)"
  using scanstring_escape by (simp add: encode_basestring_def)

section \<open>\<open>loads\<close> inverts \<open>dumps\<close>\<close>

lemma value_start_not:
  "value_start c \<Longrightarrow> \<not> is_ws c \<and> c \<noteq> CHR '']'' \<and> c \<noteq> CHR ''}'' \<and> c \<noteq> CHR '','' \<and> c \<noteq> CHR '':''"
  by (auto simp: value_start_def is_ws_def is_digit_def dq_def)

lemma skip_ws_start: "s \<noteq> [] \<Longrightarrow> \<not> is_ws (hd s) \<Longrightarrow> skip_ws (s @ r) = s @ r"
  by (cases s) (simp_all add: skip_ws_def)

lemma skip_ws_Cons: "\<not> is_ws c \<Longrightarrow> skip_ws (c # r) = c # r"
  by (simp add: skip_ws_def)

lemma skip_ws_space: "skip_ws (CHR '' '' # s) = skip_ws s"
  by (simp add: skip_ws_def is_ws_def)

lemma dumps_hd: "dumps v = Inr s \<Longrightarrow> s \<noteq> [] \<and> value_start (hd s)"
  using show_int_hd
  by (cases v) (auto simp: value_start_def encode_basestring_def split: sum.splits if_splits)

lemma dumps_list_hd: "xs \<noteq> [] \<Longrightarrow> dumps_list xs = Inr s \<Longrightarrow> s \<noteq> [] \<and> value_start (hd s)"
proof -
  assume ne: "xs \<noteq> []" and d: "dumps_list xs = Inr s"
  then obtain x ys where xs: "xs = x # ys" by (cases xs) auto
  show ?thesis
  proof (cases ys)
    case Nil
    with xs d show ?thesis using dumps_hd by simp
  next
    case (Cons y zs)
    with xs d show ?thesis using dumps_hd [of x]
      by (auto split: sum.splits)
  qed
qed

lemma dumps_items_hd: "kvs \<noteq> [] \<Longrightarrow> dumps_items kvs = Inr s \<Longrightarrow> s \<noteq> [] \<and> hd s = dq"
proof -
  assume ne: "kvs \<noteq> []" and d: "dumps_items kvs = Inr s"
  then obtain x ys where xs: "kvs = x # ys" by (cases kvs) auto
  show ?thesis
  proof (cases ys)
    case Nil
    with xs d show ?thesis by (auto simp: encode_basestring_def split: sum.splits)
  next
    case (Cons y zs)
    with xs d show ?thesis
      by (auto simp: encode_basestring_def split: sum.splits)
  qed
qed

lemma parse_value_str:
  "parse_value (Suc n) (dq # t) =
     (case scanstring t of None \<Rightarrow> None | Some (str, r) \<Rightarrow> Some (PStr str, r))"
  by simp

lemma parse_value_list:
  "parse_value (Suc n) (CHR ''['' # t) =
     (case skip_ws t of
        [] \<Rightarrow> None
      | c' # r \<Rightarrow>
          if c' = CHR '']'' then Some (PList [], r)
          else (case parse_elems n (c' # r) of
                  None \<Rightarrow> None
                | Some (vs, r') \<Rightarrow> Some (PList vs, r')))"
  by (simp add: dq_def)

lemma parse_value_dict:
  "parse_value (Suc n) (CHR ''{'' # t) =
     (case skip_ws t of
        [] \<Rightarrow> None
      | c' # r \<Rightarrow>
          if c' = CHR ''}'' then Some (PDict [], r)
          else (case parse_members n (c' # r) of
                  None \<Rightarrow> None
                | Some (kvs, r') \<Rightarrow> Some (PDict (make_dict kvs), r')))"
  by (simp add: dq_def)

lemma parse_value_literals:
  "parse_value (Suc n) (''null'' @ rest) = Some (PNone, rest)"
  "parse_value (Suc n) (''true'' @ rest) = Some (PBool True, rest)"
  "parse_value (Suc n) (''false'' @ rest) = Some (PBool False, rest)"
  by (simp_all add: dq_def)

lemma parse_value_int:
  assumes "s \<noteq> []" and "hd s = CHR ''-'' \<or> is_digit (hd s)"
  shows "parse_value (Suc n) s = (case scan_int s of None \<Rightarrow> None | Some (i, r) \<Rightarrow> Some (PInt i, r))"
proof -
  obtain c cs where s: "s = c # cs" using assms(1) by (cases s) auto
  with assms(2) have c: "c \<noteq> dq" "c \<noteq> CHR ''{''" "c \<noteq> CHR ''[''" "c \<noteq> CHR ''n''" "c \<noteq> CHR ''t''" "c \<noteq> CHR ''f''"
    by (auto simp: is_digit_def dq_def)
  then show ?thesis unfolding s by simp
qed

lemma make_dict_snoc: "make_dict (kvs @ [item]) = dict_set (make_dict kvs) (fst item) (snd item)"
  by (simp add: make_dict_def)

lemma dict_set_fresh: "k \<notin> fst ` set d \<Longrightarrow> dict_set d k v = d @ [(k, v)]"
  by (induction d) auto

lemma make_dict_distinct: "distinct (map fst kvs) \<Longrightarrow> make_dict kvs = kvs"
proof (induction kvs rule: rev_induct)
  case Nil
  show ?case by (simp add: make_dict_def)
next
  case (snoc item kvs)
  then have "make_dict kvs = kvs" and "fst item \<notin> fst ` set kvs" by auto
  then show ?case by (simp add: make_dict_snoc dict_set_fresh)
qed

lemma terminated_delims:
  "terminated (CHR '','' # r)" "terminated (CHR '']'' # r)" "terminated (CHR ''}'' # r)"
  by (simp_all add: terminated_def is_digit_def)

lemma parse_elems_step:
  "parse_value n s = Some (v, CHR '']'' # r) \<Longrightarrow> parse_elems (Suc n) s = Some ([v], r)"
  "parse_value n s = Some (v, CHR '','' # CHR '' '' # t) \<Longrightarrow> t \<noteq> [] \<Longrightarrow> \<not> is_ws (hd t) \<Longrightarrow>
     parse_elems (Suc n) s = (case parse_elems n t of None \<Rightarrow> None | Some (vs, r'') \<Rightarrow> Some (v # vs, r''))"
  using skip_ws_start [of t "[]"]
  by (simp_all add: skip_ws_Cons is_ws_def skip_ws_space)

lemma parse_members_step:
  assumes "scanstring ks = Some (k, CHR '':'' # CHR '' '' # s)" and "s \<noteq> []" and "\<not> is_ws (hd s)"
  shows "parse_value n s = Some (v, CHR ''}'' # r) \<Longrightarrow>
           parse_members (Suc n) (dq # ks) = Some ([(k, v)], r)"
    and "parse_value n s = Some (v, CHR '','' # CHR '' '' # t) \<Longrightarrow> t \<noteq> [] \<Longrightarrow> \<not> is_ws (hd t) \<Longrightarrow>
           parse_members (Suc n) (dq # ks) =
             (case parse_members n t of None \<Rightarrow> None | Some (kvs, r4) \<Rightarrow> Some ((k, v) # kvs, r4))"
  using assms skip_ws_start [of t "[]"] skip_ws_start [of s "[]"]
  by (simp_all add: skip_ws_Cons is_ws_def skip_ws_space)

declare parse_value.simps [simp del] parse_elems.simps [simp del] parse_members.simps [simp del]

lemma parse_dumps:
  "\<And>s n rest. wf_pyval v \<Longrightarrow> dumps v = Inr s \<Longrightarrow> length s \<le> n \<Longrightarrow> terminated rest \<Longrightarrow>
     parse_value n (s @ rest) = Some (v, rest)"
  "\<And>s n rest. xs \<noteq> [] \<Longrightarrow> wf_pyvals xs \<Longrightarrow> dumps_list xs = Inr s \<Longrightarrow> length s < n \<Longrightarrow>
     parse_elems n (s @ CHR '']'' # rest) = Some (xs, rest)"
  "\<And>s n rest. kvs \<noteq> [] \<Longrightarrow> wf_items kvs \<Longrightarrow> dumps_items kvs = Inr s \<Longrightarrow> length s < n \<Longrightarrow>
     parse_members n (s @ CHR ''}'' # rest) = Some (kvs, rest)"
proof (induction v and xs and kvs rule: dumps_dumps_list_dumps_items.induct)
  case 1
  then obtain m where "n = Suc m" by (cases n) auto
  with 1 show ?case using parse_value_literals(1) by simp
next
  case (2 b)
  then obtain m where n: "n = Suc m" by (cases n) (auto split: if_splits)
  show ?case
  proof (cases b)
    case True
    with 2 have "s = ''true''" by simp
    with True show ?thesis unfolding n using parse_value_literals(2) by simp
  next
    case False
    with 2 have "s = ''false''" by simp
    with False show ?thesis unfolding n using parse_value_literals(3) by simp
  qed
next
  case (3 i)
  have "show_int i \<noteq> []" using show_int_hd by simp
  with 3 obtain m where n: "n = Suc m" by (cases n) auto
  have "parse_value (Suc m) (show_int i @ rest) =
          (case scan_int (show_int i @ rest) of None \<Rightarrow> None | Some (i, r) \<Rightarrow> Some (PInt i, r))"
    using show_int_hd [of i] by (intro parse_value_int) auto
  moreover from 3 have "s = show_int i" by simp
  ultimately show ?case using 3(4) n by (simp add: scan_int_show_int)
next
  case (4 str)
  then obtain m where n: "n = Suc m" by (cases n) (auto simp: encode_basestring_def)
  from 4 have s: "s = dq # concat (map escape_char str) @ [dq]"
    by (simp add: encode_basestring_def)
  show ?case unfolding s n
    by (simp add: parse_value_str scanstring_escape)
next
  case (5 xs)
  from 5(3) obtain t where t: "dumps_list xs = Inr t" and s: "s = CHR ''['' # t @ '']''"
    by (auto split: sum.splits)
  from 5(4) s obtain m where n: "n = Suc m" and len: "length t < m" by (cases n) auto
  show ?case
  proof (cases "xs = []")
    case True
    with t have "t = []" by simp
    with True show ?thesis unfolding s n
      by (simp add: parse_value_list skip_ws_Cons is_ws_def)
  next
    case False
    from dumps_list_hd [OF False t] obtain c cs where tc: "t = c # cs" and vs: "value_start c"
      by (cases t) auto
    have "parse_elems m (t @ CHR '']'' # rest) = Some (xs, rest)"
      using 5(1) [OF False _ t len] 5(2) by simp
    with vs show ?thesis unfolding s n
      using value_start_not [OF vs]
      by (simp add: parse_value_list skip_ws_Cons tc)
  qed
next
  case (6 kvs)
  from 6(3) obtain t where t: "dumps_items kvs = Inr t" and s: "s = CHR ''{'' # t @ ''}''"
    by (auto split: sum.splits)
  from 6(4) s obtain m where n: "n = Suc m" and len: "length t < m" by (cases n) auto
  from 6(2) have dist: "distinct (map fst kvs)" and wf: "wf_items kvs" by auto
  show ?case
  proof (cases "kvs = []")
    case True
    with t have "t = []" by simp
    with True show ?thesis unfolding s n
      by (simp add: parse_value_dict skip_ws_Cons is_ws_def)
  next
    case False
    from dumps_items_hd [OF False t] obtain cs where tc: "t = dq # cs"
      by (cases t) auto
    have "parse_members m (t @ CHR ''}'' # rest) = Some (kvs, rest)"
      using 6(1) [OF False wf t len] by simp
    then show ?thesis unfolding s n
      by (simp add: parse_value_dict skip_ws_Cons tc is_ws_def dq_def make_dict_distinct [OF dist])
  qed
next
  case (7 k)
  then show ?case by simp
next
  case 8
  then show ?case by simp
next
  case (9 x)
  from 9(5) obtain m where n: "n = Suc m" and len: "length s \<le> m" by (cases n) auto
  from 9 have "parse_value m (s @ CHR '']'' # rest) = Some (x, CHR '']'' # rest)"
    using len terminated_delims(2) by simp
  then show ?case unfolding n by (rule parse_elems_step(1))
next
  case (10 x y ys)
  from 10(5) obtain sx t where sx: "dumps x = Inr sx" and t: "dumps_list (y # ys) = Inr t"
    and s: "s = sx @ '', '' @ t"
    by (auto split: sum.splits)
  from 10(6) s obtain m where n: "n = Suc m" and len: "length sx \<le> m" "length t < m"
    by (cases n) auto
  have hd: "t \<noteq> []" "\<not> is_ws (hd t)"
    using dumps_list_hd [OF _ t] value_start_not by auto
  have "parse_value m (sx @ CHR '','' # CHR '' '' # t @ CHR '']'' # rest)
          = Some (x, CHR '','' # CHR '' '' # t @ CHR '']'' # rest)"
    using 10(1) [OF _ sx len(1) terminated_delims(1)] 10(4) by simp
  moreover have "parse_elems m (t @ CHR '']'' # rest) = Some (y # ys, rest)"
    using 10(2) [OF sx _ _ t len(2)] 10(4) by simp
  ultimately show ?case unfolding n s
    using hd parse_elems_step(2) [of m "sx @ CHR '','' # CHR '' '' # t @ CHR '']'' # rest" x "t @ CHR '']'' # rest"]
    by (cases t) (simp_all)
next
  case 11
  then show ?case by simp
next
  case (12 item)
  from 12(4) obtain sv where sv: "dumps (snd item) = Inr sv"
    and s: "s = encode_basestring (fst item) @ '': '' @ sv"
    by (auto split: sum.splits)
  from 12(5) s obtain m where n: "n = Suc m" and len: "length sv \<le> m"
    by (cases n) auto
  have hd: "sv \<noteq> []" "\<not> is_ws (hd sv)"
    using dumps_hd [OF sv] value_start_not by auto
  have key: "scanstring (concat (map escape_char (fst item)) @ dq # CHR '':'' # CHR '' '' # sv @ CHR ''}'' # rest)
               = Some (fst item, CHR '':'' # CHR '' '' # sv @ CHR ''}'' # rest)"
    by (rule scanstring_escape)
  have "parse_value m (sv @ CHR ''}'' # rest) = Some (snd item, CHR ''}'' # rest)"
    using 12(1) [OF _ sv len terminated_delims(3)] 12(3) by simp
  then have "parse_members (Suc m) (dq # concat (map escape_char (fst item)) @ dq # CHR '':'' # CHR '' '' # sv @ CHR ''}'' # rest)
               = Some ([(fst item, snd item)], rest)"
    using hd by (intro parse_members_step(1) [OF key]) (cases sv; simp)+
  then show ?case unfolding n s by (simp add: encode_basestring_def)
next
  case (13 item item' kvs)
  from 13(5) obtain sv t where sv: "dumps (snd item) = Inr sv"
    and t: "dumps_items (item' # kvs) = Inr t"
    and s: "s = encode_basestring (fst item) @ '': '' @ sv @ '', '' @ t"
    by (auto split: sum.splits)
  from 13(6) s obtain m where n: "n = Suc m" and len: "length sv \<le> m" "length t < m"
    by (cases n) auto
  have hd: "sv \<noteq> []" "\<not> is_ws (hd sv)"
    using dumps_hd [OF sv] value_start_not by auto
  have hdt: "t \<noteq> []" "\<not> is_ws (hd t)"
    using dumps_items_hd [OF _ t] by (auto simp: is_ws_def dq_def)
  let ?tail = "CHR '','' # CHR '' '' # t @ CHR ''}'' # rest"
  have key: "scanstring (concat (map escape_char (fst item)) @ dq # CHR '':'' # CHR '' '' # sv @ ?tail)
               = Some (fst item, CHR '':'' # CHR '' '' # sv @ ?tail)"
    by (rule scanstring_escape)
  have v: "parse_value m (sv @ ?tail) = Some (snd item, ?tail)"
    using 13(1) [OF _ sv len(1) terminated_delims(1)] 13(4) by simp
  have rest: "parse_members m (t @ CHR ''}'' # rest) = Some (item' # kvs, rest)"
    using 13(2) [OF sv _ _ t len(2)] 13(4) by simp
  have "parse_members (Suc m) (dq # concat (map escape_char (fst item)) @ dq # CHR '':'' # CHR '' '' # sv @ ?tail)
               = Some ((fst item, snd item) # item' # kvs, rest)"
    using parse_members_step(2) [OF key, of m "snd item" "t @ CHR ''}'' # rest"] hd hdt v rest
    by (cases sv; cases t) (simp_all)
  then show ?case unfolding n s by (simp add: encode_basestring_def)
qed

section \<open>Rows and the batched write\<close>

lemma row_simps [simp]:
  "row_key (k, v, t) = k" "row_value (k, v, t) = v" "row_ttl (k, v, t) = t"
  by (simp_all add: row_key_def row_value_def row_ttl_def)

lemma filter_key_insert_or_replace:
  "filter (\<lambda>x. row_key x = k) (insert_or_replace r db) =
     (if row_key r = k then [r] else filter (\<lambda>x. row_key x = k) db)"
  by (induction db) (auto simp: insert_or_replace_def)

lemma filter_key_commit:
  "filter (\<lambda>x. row_key x = k) (foldl (\<lambda>db r. insert_or_replace r db) db buf) =
     (case map_of (rev buf) k of
        None \<Rightarrow> filter (\<lambda>x. row_key x = k) db
      | Some vt \<Rightarrow> [(k, vt)])"
proof (induction buf rule: rev_induct)
  case Nil
  then show ?case by simp
next
  case (snoc r buf)
  then show ?case
    by (cases r) (simp add: filter_key_insert_or_replace)
qed

text \<open>
  C5: \<open>commit_cached\<close> with an empty buffer returns without an error and leaves the
  object as it is. When it succeeds, the table is the old table with every buffered row
  inserted or replaced in order, so that the last buffered row of a key is the only row of
  that key, the buffer is empty, and a second call changes nothing. When the statement is
  refused, the object (buffer and table) is unchanged. A buffer that fits the limit of the
  engine is committed.
\<close>

theorem commit_cached_repeatable:
  "(cache_values s = [] \<longrightarrow> commit_cached max_vars s = (Inr (), s)) \<and>
   (commit_cached max_vars s = (Inr (), s') \<longrightarrow>
      kv s' = foldl (\<lambda>db r. insert_or_replace r db) (kv s) (cache_values s) \<and>
      (\<forall>k v t. map_of (rev (cache_values s)) k = Some (v, t) \<longrightarrow>
         filter (\<lambda>x. row_key x = k) (kv s') = [(k, v, t)]) \<and>
      cache_values s' = [] \<and>
      commit_cached max_vars s' = (Inr (), s')) \<and>
   (commit_cached max_vars s = (Inl e, s') \<longrightarrow> s' = s) \<and>
   (length (cache_values s) = cache_row_count s \<and> 3 * cache_row_count s \<le> max_vars \<longrightarrow>
      fst (commit_cached max_vars s) = Inr ())"
proof (intro conjI impI)
  assume "cache_values s = []"
  then show "commit_cached max_vars s = (Inr (), s)"
    by (simp add: commit_cached_def)
next
  assume ok: "commit_cached max_vars s = (Inr (), s')"
  show fold: "kv s' = foldl (\<lambda>db r. insert_or_replace r db) (kv s) (cache_values s)"
    using ok by (auto simp: commit_cached_def split: if_splits)
  show "\<forall>k v t. map_of (rev (cache_values s)) k = Some (v, t) \<longrightarrow>
         filter (\<lambda>x. row_key x = k) (kv s') = [(k, v, t)]"
    by (simp add: fold filter_key_commit)
  show empty: "cache_values s' = []"
    using ok by (auto simp: commit_cached_def split: if_splits)
  show "commit_cached max_vars s' = (Inr (), s')"
    using empty by (simp add: commit_cached_def)
next
  assume "commit_cached max_vars s = (Inl e, s')"
  then show "s' = s"
    by (auto simp: commit_cached_def split: if_splits)
next
  assume "length (cache_values s) = cache_row_count s \<and> 3 * cache_row_count s \<le> max_vars"
  then show "fst (commit_cached max_vars s) = Inr ()"
    by (simp add: commit_cached_def)
qed

theorem commit_cached_repeatable_witness:
  "commit_cached 999 (init [(''a'', ''{}'', None)]) = (Inr (), init [(''a'', ''{}'', None)]) \<and>
   kv (snd (commit_cached 999
        \<lparr>kv = [(''a'', ''{}'', None)],
         cache_values = [(''a'', ''1'', None), (''b'', ''2'', Some 7), (''a'', ''3'', None)],
         cache_row_count = 3\<rparr>)) = [(''b'', ''2'', Some 7), (''a'', ''3'', None)] \<and>
   snd (commit_cached 8
        \<lparr>kv = [(''a'', ''{}'', None)],
         cache_values = [(''a'', ''1'', None), (''b'', ''2'', Some 7), (''a'', ''3'', None)],
         cache_row_count = 3\<rparr>) =
        \<lparr>kv = [(''a'', ''{}'', None)],
         cache_values = [(''a'', ''1'', None), (''b'', ''2'', Some 7), (''a'', ''3'', None)],
         cache_row_count = 3\<rparr>"
  using commit_cached_repeatable [of "init [(''a'', ''{}'', None)]" 999]
    commit_cached_repeatable [of "\<lparr>kv = [(''a'', ''{}'', None)],
         cache_values = [(''a'', ''1'', None), (''b'', ''2'', Some 7), (''a'', ''3'', None)],
         cache_row_count = 3\<rparr>" 999 "snd (commit_cached 999 \<lparr>kv = [(''a'', ''{}'', None)],
         cache_values = [(''a'', ''1'', None), (''b'', ''2'', Some 7), (''a'', ''3'', None)],
         cache_row_count = 3\<rparr>)"]
    commit_cached_repeatable [of "\<lparr>kv = [(''a'', ''{}'', None)],
         cache_values = [(''a'', ''1'', None), (''b'', ''2'', Some 7), (''a'', ''3'', None)],
         cache_row_count = 3\<rparr>" 8 "\<lparr>kv = [(''a'', ''{}'', None)],
         cache_values = [(''a'', ''1'', None), (''b'', ''2'', Some 7), (''a'', ''3'', None)],
         cache_row_count = 3\<rparr>" OperationalError]
  by (simp add: commit_cached_def init_def insert_or_replace_def)

section \<open>Reading what was written\<close>

lemma loads_dumps:
  assumes "wf_pyval v" and "dumps v = Inr s"
  shows "loads s = Inr v"
proof -
  have hd: "s \<noteq> []" "\<not> is_ws (hd s)"
    using dumps_hd [OF assms(2)] value_start_not by auto
  have "skip_ws s = s"
    using skip_ws_start [OF hd, of "[]"] by simp
  moreover have "parse_value (length s) (s @ []) = Some (v, [])"
    using parse_dumps(1) [OF assms, of "length s" "[]"] by (simp add: terminated_def)
  ultimately show ?thesis
    by (simp add: loads_def skip_ws_def)
qed

lemma encode_value_eq:
  "encode_value v = (case dumps v of Inl e \<Rightarrow> Inl e
                     | Inr s \<Rightarrow> Inr (CHR ''{'' # encode_basestring ''value'' @ '': '' @ s @ ''}''))"
  by (simp add: encode_value_def split: sum.splits)

lemma encode_value_serializable:
  "serializable v \<Longrightarrow> \<exists>c cs. encode_value v = Inr (c # cs)"
  by (auto simp: encode_value_eq serializable_def split: sum.splits)

lemma encode_value_unserializable:
  "\<not> serializable v \<Longrightarrow> \<exists>e. encode_value v = Inl e"
  by (auto simp: encode_value_eq serializable_def split: sum.splits)

lemma decode_encode:
  assumes "wf_pyval v" and "encode_value v = Inr enc"
  shows "decode_value enc = Inr v"
proof -
  have "wf_pyval (PDict [(''value'', v)])" using assms(1) by simp
  then have "loads enc = Inr (PDict [(''value'', v)])"
    using assms(2) unfolding encode_value_def by (rule loads_dumps)
  then show ?thesis by (simp add: decode_value_def dict_get_def)
qed

lemma select_value_insert_or_replace:
  "select_value t k (insert_or_replace (k, enc, ttl) db) =
     (if unexpired (timestamp_int (int t)) (k, enc, ttl) then Some enc else None)"
proof -
  have "filter (\<lambda>r. row_key r = k \<and> unexpired (timestamp_int (int t)) r)
          (filter (\<lambda>x. row_key x \<noteq> k) db) = []"
    by (induction db) auto
  then show ?thesis
    by (simp add: select_value_def insert_or_replace_def)
qed


lemma get_found:
  assumes "select_value t k (kv s) = Some enc" and "wf_pyval v" and "encode_value v = Inr enc"
  shows "get t k D b s = (Inr v, s)"
proof -
  have "enc \<noteq> []"
    using assms(3) by (auto simp: encode_value_eq split: sum.splits)
  then obtain c cs where "enc = c # cs" by (cases enc) auto
  with assms show ?thesis
    using decode_encode [OF assms(2,3)] by (simp add: get_def)
qed


lemma put_ok:
  "encode_value v = Inr enc \<Longrightarrow>
     put now k v ttl s = (Inr (), s\<lparr>kv := insert_or_replace (k, enc, expiry now ttl) (kv s)\<rparr>)"
  by (simp add: put_def)

lemma timestamp_int_nat: "timestamp_int (int n) = int (n div 1000000)"
  by (simp add: timestamp_int_def zdiv_int)





text \<open>
  C8: when \<open>k\<close> is absent or expired and \<open>D\<close> is a JSON-representable value,
  \<open>get(k, default=D, save_default_if_not_set=True)\<close> returns \<open>D\<close> and stores it under
  \<open>k\<close> without an expiry; every later \<open>get(k)\<close>, at any time and with any default,
  returns \<open>D\<close> and leaves the store as it is.
\<close>

theorem get_save_default:
  assumes "select_value now k (kv s) = None" and "wf_pyval D" and "serializable D"
  shows "fst (get now k D True s) = Inr D \<and>
         (\<exists>enc. encode_value D = Inr enc \<and>
                kv (snd (get now k D True s)) = insert_or_replace (k, enc, None) (kv s)) \<and>
         (\<forall>t D' b. get t k D' b (snd (get now k D True s)) = (Inr D, snd (get now k D True s)))"
proof -
  from assms(3) obtain c cs where enc: "encode_value D = Inr (c # cs)"
    using encode_value_serializable by blast
  let ?s' = "s\<lparr>kv := insert_or_replace (k, c # cs, None) (kv s)\<rparr>"
  have g: "get now k D True s = (Inr D, ?s')"
    using assms(1) put_ok [OF enc, of now k None s] by (simp add: get_def expiry_def)
  have sel: "\<And>t. select_value t k (kv ?s') = Some (c # cs)"
    by (simp add: select_value_insert_or_replace unexpired_def)
  have "\<And>t D' b. get t k D' b ?s' = (Inr D, ?s')"
    using sel assms(2) enc by (rule get_found)
  then show ?thesis using enc by (simp add: g)
qed

theorem get_save_default_witness:
  "select_value 9000000 ''missing'' (kv (init [(''missing'', ''{}'', Some 3)])) = None \<and>
   wf_pyval (PStr ''x'') \<and> serializable (PStr ''x'') \<and>
   fst (get 9000000 ''missing'' (PStr ''x'') True (init [(''missing'', ''{}'', Some 3)])) = Inr (PStr ''x'') \<and>
   fst (get 99000000 ''missing'' PNone False
         (snd (get 9000000 ''missing'' (PStr ''x'') True (init [(''missing'', ''{}'', Some 3)])))) = Inr (PStr ''x'')"
proof -
  have h1: "select_value 9000000 ''missing'' (kv (init [(''missing'', ''{}'', Some 3)])) = None"
    by (simp add: select_value_def init_def unexpired_def timestamp_int_def)
  have h2: "wf_pyval (PStr ''x'')" by simp
  have h3: "serializable (PStr ''x'')" by (simp add: serializable_def)
  note T = get_save_default [OF h1 h2 h3]
  have "get 99000000 ''missing'' PNone False
         (snd (get 9000000 ''missing'' (PStr ''x'') True (init [(''missing'', ''{}'', Some 3)]))) =
        (Inr (PStr ''x''), snd (get 9000000 ''missing'' (PStr ''x'') True (init [(''missing'', ''{}'', Some 3)])))"
    using T by blast
  then show ?thesis using h1 h2 h3 T by simp
qed

text \<open>
  C9: \<open>None\<close> is stored as the document \<open>{"value": null}\<close>; after
  \<open>put(k, None)\<close> without a TTL, \<open>get(k, default=D)\<close> returns \<open>None\<close> at every time
  and for every default \<open>D\<close>, so the result differs from every default that is not
  \<open>None\<close>.
\<close>

theorem put_null_distinguishable:
  "encode_value PNone = Inr (CHR ''{'' # dq # ''value'' @ dq # '': null}'') \<and>
   fst (put now k PNone None s) = Inr () \<and>
   get t k D b (snd (put now k PNone None s)) = (Inr PNone, snd (put now k PNone None s))"
proof -
  have enc: "encode_value PNone = Inr (CHR ''{'' # dq # ''value'' @ dq # '': null}'')"
    by (simp add: encode_value_def encode_basestring_def escape_char_def dq_def bs_def)
  let ?s' = "s\<lparr>kv := insert_or_replace (k, CHR ''{'' # dq # ''value'' @ dq # '': null}'', None) (kv s)\<rparr>"
  have p: "put now k PNone None s = (Inr (), ?s')"
    using put_ok [OF enc, of now k None s] by (simp add: expiry_def)
  have "select_value t k (kv ?s') = Some (CHR ''{'' # dq # ''value'' @ dq # '': null}'')"
    by (simp add: select_value_insert_or_replace unexpired_def)
  then have "get t k D b ?s' = (Inr PNone, ?s')"
    using enc by (intro get_found) simp_all
  then show ?thesis using enc by (simp add: p)
qed

text \<open>
  C3, as the code has it: when \<open>k\<close> holds a stored, unexpired \<open>0\<close>, \<open>""\<close> or
  \<open>False\<close>, \<open>get(k, default=D, save_default_if_not_set=b)\<close> returns the stored value
  and leaves the store unchanged. The test \<open>if not result\<close> reads the stored text
  \<open>{"value": ...}\<close>, which is never empty, and not the decoded value.
\<close>

theorem get_stored_falsy:
  assumes "v \<in> {PInt 0, PStr [], PBool False}"
    and "encode_value v = Inr enc"
    and "select_value t k (kv s) = Some enc"
  shows "get t k D b s = (Inr v, s)"
proof -
  have "wf_pyval v" using assms(1) by auto
  with assms(3) show ?thesis using assms(2) by (rule get_found)
qed

theorem get_stored_falsy_witness:
  "PInt 0 \<in> {PInt 0, PStr [], PBool False} \<and>
   encode_value (PInt 0) = Inr (CHR ''{'' # dq # ''value'' @ dq # '': 0}'') \<and>
   select_value 8 ''k'' (kv (snd (put 3 ''k'' (PInt 0) None (init [])))) = Some (CHR ''{'' # dq # ''value'' @ dq # '': 0}'') \<and>
   get 8 ''k'' (PInt 1) True (snd (put 3 ''k'' (PInt 0) None (init []))) =
     (Inr (PInt 0), snd (put 3 ''k'' (PInt 0) None (init [])))"
proof -
  have h1: "PInt 0 \<in> {PInt 0, PStr [], PBool False}" by simp
  have h2: "encode_value (PInt 0) = Inr (CHR ''{'' # dq # ''value'' @ dq # '': 0}'')"
    by code_simp
  have h3: "select_value 8 ''k'' (kv (snd (put 3 ''k'' (PInt 0) None (init [])))) =
              Some (CHR ''{'' # dq # ''value'' @ dq # '': 0}'')"
    by code_simp
  show ?thesis
    using h1 h2 h3 get_stored_falsy [OF h1 h2 h3, where D = "PInt 1" and b = True] by blast
qed

text \<open>The claim C3 as stated fails: a stored \<open>0\<close> is returned instead of the default
  \<open>1\<close>, and nothing is written although \<open>save_default_if_not_set\<close> is set.\<close>

theorem get_stored_falsy_counterexample:
  "fst (get 8 ''k'' (PInt 1) True (snd (put 3 ''k'' (PInt 0) None (init [])))) = Inr (PInt 0) \<and>
   fst (get 8 ''k'' (PInt 1) True (snd (put 3 ''k'' (PInt 0) None (init [])))) \<noteq> Inr (PInt 1) \<and>
   snd (get 8 ''k'' (PInt 1) True (snd (put 3 ''k'' (PInt 0) None (init [])))) =
     snd (put 3 ''k'' (PInt 0) None (init []))"
  by code_simp

section \<open>Prefix queries\<close>

lemma like_percent_all: "like ''%'' t"
  by (induction t) auto

lemma like_percent_skip: "like ps t \<Longrightarrow> like (CHR ''%'' # ps) t"
  by (cases t) auto

lemma like_append_prefix: "like (p @ ''%'') (p @ t)"
proof (induction p)
  case Nil
  show ?case using like_percent_all by simp
next
  case (Cons c p)
  then show ?case by (simp add: like_percent_skip)
qed

lemma like_startswith: "startswith k p \<Longrightarrow> like (p @ ''%'') k"
proof -
  assume "startswith k p"
  then have "k = p @ drop (length p) k"
    by (metis append_take_drop_id startswith_def)
  then show ?thesis
    by (metis like_append_prefix)
qed

lemma delete_partial_removes_prefix:
  "r \<in> set (kv (delete_partial p s)) \<Longrightarrow> \<not> startswith (row_key r) p \<and> r \<in> set (kv s)"
  by (auto simp: delete_partial_def dest: like_startswith)

lemma delete_partial_keeps_unmatched:
  "filter (\<lambda>r. \<not> like (p @ ''%'') (row_key r)) (kv (delete_partial p s)) =
   filter (\<lambda>r. \<not> like (p @ ''%'') (row_key r)) (kv s)"
  by (simp add: delete_partial_def)

lemma select_partial_rows:
  "set (select_partial now p db) =
     {r \<in> set db. like (p @ ''%'') (row_key r) \<and> unexpired (timestamp_int (int now)) r}"
  by (auto simp: select_partial_def)

lemma select_partial_sorted: "sorted (map row_value (select_partial now p db))"
  by (simp add: select_partial_def)

lemma select_partial_complete:
  "r \<in> set db \<Longrightarrow> startswith (row_key r) p \<Longrightarrow> unexpired (timestamp_int (int now)) r \<Longrightarrow>
     r \<in> set (select_partial now p db)"
  by (simp add: select_partial_rows like_startswith)

text \<open>
  C7: \<open>delete_partial(p)\<close> should remove exactly the rows whose key starts with \<open>p\<close>.
  The statement matches keys with \<open>LIKE p || '%'\<close>: \<open>delete_partial("a_")\<close> deletes the
  key \<open>ab\<close>, and \<open>delete_partial("A:")\<close> deletes the key \<open>a:1\<close>, neither of which
  starts with the prefix.
\<close>

theorem delete_partial_wildcard:
  "kv (delete_partial ''a_'' (init [(''ab'', ''{}'', None), (''b:1'', ''{}'', None)])) = [(''b:1'', ''{}'', None)] \<and>
   \<not> startswith ''ab'' ''a_'' \<and>
   kv (delete_partial ''A:'' (init [(''a:1'', ''{}'', None)])) = [] \<and>
   \<not> startswith ''a:1'' ''A:''"
  by code_simp

text \<open>
  C6: \<open>get_partial(p)\<close> should return exactly the unexpired rows whose key starts with
  \<open>p\<close>. With the \<open>LIKE\<close> pattern, \<open>get_partial("a_")\<close> returns the row of the key
  \<open>ab\<close>, which does not start with \<open>a_\<close>.
\<close>

theorem get_partial_wildcard:
  "get_partial 0 ''a_'' (snd (put 0 ''ab'' (PInt 1) None (init []))) = Inr [(''ab'', PInt 1)] \<and>
   \<not> startswith ''ab'' ''a_''"
  by code_simp

section \<open>A zero TTL\<close>

lemma decode_rows_member:
  "decode_rows rs = Inr xs \<Longrightarrow> r \<in> set rs \<Longrightarrow> decode_value (row_value r) = Inr v \<Longrightarrow>
     (row_key r, v) \<in> set xs"
proof (induction rs arbitrary: xs)
  case Nil
  then show ?case by simp
next
  case (Cons a rs)
  from Cons.prems(1) obtain va ys where a: "decode_value (row_value a) = Inr va"
    and ys: "decode_rows rs = Inr ys" and xs: "xs = (row_key a, va) # ys"
    by (auto simp: decode_rows_def split: sum.splits)
  show ?case
  proof (cases "r = a")
    case True
    with a Cons.prems(3) xs show ?thesis by simp
  next
    case False
    with Cons.prems(2) have "r \<in> set rs" by simp
    then have "(row_key r, v) \<in> set ys"
      using Cons.IH [OF ys _ Cons.prems(3)] by simp
    with xs show ?thesis by simp
  qed
qed

lemma expiry_zero: "expiry now (Some 0) = None"
  by (simp add: expiry_def)

lemma select_partial_insert_or_replace:
  "startswith k p \<Longrightarrow> (k, enc, None) \<in> set (select_partial t p (insert_or_replace (k, enc, None) db))"
  by (simp add: select_partial_rows like_startswith insert_or_replace_def unexpired_def)

lemma no_expiry_row_read:
  assumes "wf_pyval v" and enc: "encode_value v = Inr enc"
    and tbl: "kv s' = insert_or_replace (k, enc, None) db"
  shows "get t k D b s' = (Inr v, s')"
    and "startswith k p \<Longrightarrow> (k, enc, None) \<in> set (select_partial t p (kv s'))"
    and "startswith k p \<Longrightarrow> get_partial t p s' = Inr xs \<Longrightarrow> (k, v) \<in> set xs"
proof -
  have "select_value t k (kv s') = Some enc"
    by (simp add: tbl select_value_insert_or_replace unexpired_def)
  then show "get t k D b s' = (Inr v, s')"
    using assms(1) enc by (rule get_found)
  show row: "startswith k p \<Longrightarrow> (k, enc, None) \<in> set (select_partial t p (kv s'))"
    by (simp add: tbl select_partial_insert_or_replace)
  show "startswith k p \<Longrightarrow> get_partial t p s' = Inr xs \<Longrightarrow> (k, v) \<in> set xs"
  proof -
    assume sw: "startswith k p" and gp: "get_partial t p s' = Inr xs"
    have "decode_value (row_value (k, enc, None)) = Inr v"
      using decode_encode [OF assms(1) enc] by simp
    with decode_rows_member [OF gp [unfolded get_partial_def] row [OF sw]]
    show "(k, v) \<in> set xs" by simp
  qed
qed

text \<open>
  C10: \<open>ttl_seconds=0\<close> is falsy, so \<open>put\<close> and \<open>put_cached\<close> store the row of a
  JSON-representable value without an expiry. After \<open>put\<close>, and after \<open>put_cached\<close>
  followed by a successful \<open>commit_cached\<close>, \<open>get(k)\<close> returns the value at every time
  \<open>t\<close>, and for every prefix \<open>p\<close> of \<open>k\<close> the row is among the rows selected by
  \<open>get_partial(p)\<close> and the pair \<open>(k, v)\<close> is in every list \<open>get_partial(p)\<close> returns.
\<close>

theorem zero_ttl_never_expires:
  assumes "wf_pyval v" and "serializable v"
  shows "fst (put now k v (Some 0) s) = Inr () \<and>
         get t k D b (snd (put now k v (Some 0) s)) = (Inr v, snd (put now k v (Some 0) s)) \<and>
         (\<forall>p xs. startswith k p \<and> get_partial t p (snd (put now k v (Some 0) s)) = Inr xs
                   \<longrightarrow> (k, v) \<in> set xs) \<and>
         (\<forall>p. startswith k p \<longrightarrow>
                (\<exists>enc. encode_value v = Inr enc \<and>
                       (k, enc, None) \<in> set (select_partial t p (kv (snd (put now k v (Some 0) s)))))) \<and>
         fst (put_cached now k v (Some 0) s) = Inr () \<and>
         (\<forall>s2. commit_cached max_vars (snd (put_cached now k v (Some 0) s)) = (Inr (), s2) \<longrightarrow>
                get t k D b s2 = (Inr v, s2) \<and>
                (\<forall>p xs. startswith k p \<and> get_partial t p s2 = Inr xs \<longrightarrow> (k, v) \<in> set xs) \<and>
                (\<forall>p. startswith k p \<longrightarrow>
                       (\<exists>enc. encode_value v = Inr enc \<and>
                              (k, enc, None) \<in> set (select_partial t p (kv s2)))))"
proof -
  from assms(2) obtain c cs where enc: "encode_value v = Inr (c # cs)"
    using encode_value_serializable by blast
  let ?r = "(k, c # cs, None :: int option)"
  let ?s1 = "s\<lparr>kv := insert_or_replace ?r (kv s)\<rparr>"
  have p: "put now k v (Some 0) s = (Inr (), ?s1)"
    using put_ok [OF enc, of now k "Some 0" s] by (simp add: expiry_zero)
  have t1: "kv ?s1 = insert_or_replace ?r (kv s)" by simp
  note R1 = no_expiry_row_read [OF assms(1) enc t1]
  let ?c1 = "s\<lparr>cache_values := cache_values s @ [?r], cache_row_count := cache_row_count s + 1\<rparr>"
  have pc: "put_cached now k v (Some 0) s = (Inr (), ?c1)"
    using enc by (simp add: put_cached_def expiry_zero)
  have cached: "\<And>s2. commit_cached max_vars ?c1 = (Inr (), s2) \<Longrightarrow>
                  kv s2 = insert_or_replace ?r (foldl (\<lambda>db r. insert_or_replace r db) (kv s) (cache_values s))"
    by (auto simp: commit_cached_def split: if_splits)
  show ?thesis
  proof (intro conjI allI impI)
    show "fst (put now k v (Some 0) s) = Inr ()" by (simp add: p)
    show "get t k D b (snd (put now k v (Some 0) s)) = (Inr v, snd (put now k v (Some 0) s))"
      using R1(1) by (simp add: p)
    show "fst (put_cached now k v (Some 0) s) = Inr ()" by (simp add: pc)
  next
    fix p xs
    assume "startswith k p \<and> get_partial t p (snd (put now k v (Some 0) s)) = Inr xs"
    then show "(k, v) \<in> set xs"
      using R1(3) [of p t xs] by (simp add: p)
  next
    fix p assume "startswith k p"
    then show "\<exists>enc. encode_value v = Inr enc \<and>
                 (k, enc, None) \<in> set (select_partial t p (kv (snd (put now k v (Some 0) s))))"
      using R1(2) [of p t] enc by (simp add: p)
  next
    fix s2 assume c: "commit_cached max_vars (snd (put_cached now k v (Some 0) s)) = (Inr (), s2)"
    then have t2: "kv s2 = insert_or_replace ?r (foldl (\<lambda>db r. insert_or_replace r db) (kv s) (cache_values s))"
      using cached by (simp add: pc)
    note R2 = no_expiry_row_read [OF assms(1) enc t2]
    show "get t k D b s2 = (Inr v, s2)" by (rule R2(1))
    {
      fix p xs
      assume "startswith k p \<and> get_partial t p s2 = Inr xs"
      then show "(k, v) \<in> set xs" using R2(3) [of p t xs] by simp
    }
    {
      fix p assume "startswith k p"
      then show "\<exists>enc. encode_value v = Inr enc \<and> (k, enc, None) \<in> set (select_partial t p (kv s2))"
        using R2(2) [of p t] enc by simp
    }
  qed
qed


theorem zero_ttl_never_expires_witness:
  "wf_pyval (PStr ''x'') \<and> serializable (PStr ''x'') \<and>
   get 1800000000000000 ''cfg.a'' PNone False (snd (put 7 ''cfg.a'' (PStr ''x'') (Some 0) (init []))) =
     (Inr (PStr ''x''), snd (put 7 ''cfg.a'' (PStr ''x'') (Some 0) (init []))) \<and>
   startswith ''cfg.a'' ''cfg.'' \<and>
   get_partial 1800000000000000 ''cfg.'' (snd (put 7 ''cfg.a'' (PStr ''x'') (Some 0) (init []))) =
     Inr [(''cfg.a'', PStr ''x'')] \<and>
   (''cfg.a'', PStr ''x'') \<in> set [(''cfg.a'', PStr ''x'')] \<and>
   fst (commit_cached 999 (snd (put_cached 7 ''cfg.a'' (PStr ''x'') (Some 0) (init [])))) = Inr () \<and>
   fst (get 1800000000000000 ''cfg.a'' PNone False
         (snd (commit_cached 999 (snd (put_cached 7 ''cfg.a'' (PStr ''x'') (Some 0) (init [])))))) =
     Inr (PStr ''x'')"
proof -
  have h1: "wf_pyval (PStr ''x'')" by simp
  have h2: "serializable (PStr ''x'')" by (simp add: serializable_def)
  have h3: "startswith ''cfg.a'' ''cfg.''" by (simp add: startswith_def)
  have ts: "timestamp_int (int 1800000000000000) = 1800000000"
    by (simp add: timestamp_int_def)
  have h4: "get_partial 1800000000000000 ''cfg.'' (snd (put 7 ''cfg.a'' (PStr ''x'') (Some 0) (init []))) =
              Inr [(''cfg.a'', PStr ''x'')]"
    unfolding get_partial_def select_partial_def ts by code_simp
  have h5: "fst (commit_cached 999 (snd (put_cached 7 ''cfg.a'' (PStr ''x'') (Some 0) (init [])))) = Inr ()"
    by code_simp
  then have h6: "commit_cached 999 (snd (put_cached 7 ''cfg.a'' (PStr ''x'') (Some 0) (init []))) =
      (Inr (), snd (commit_cached 999 (snd (put_cached 7 ''cfg.a'' (PStr ''x'') (Some 0) (init [])))))"
    by (metis prod.collapse)
  note T = zero_ttl_never_expires [OF h1 h2, where now = 7 and k = "''cfg.a''" and s = "init []"
      and t = 1800000000000000 and D = PNone and b = False and max_vars = 999]
  have a: "get 1800000000000000 ''cfg.a'' PNone False (snd (put 7 ''cfg.a'' (PStr ''x'') (Some 0) (init []))) =
     (Inr (PStr ''x''), snd (put 7 ''cfg.a'' (PStr ''x'') (Some 0) (init [])))"
    using T by blast
  have b: "(''cfg.a'', PStr ''x'') \<in> set [(''cfg.a'', PStr ''x'')]"
    using T h3 h4 by blast
  have c: "get 1800000000000000 ''cfg.a'' PNone False
         (snd (commit_cached 999 (snd (put_cached 7 ''cfg.a'' (PStr ''x'') (Some 0) (init []))))) =
     (Inr (PStr ''x''), snd (commit_cached 999 (snd (put_cached 7 ''cfg.a'' (PStr ''x'') (Some 0) (init [])))))"
    using T h6 by blast
  show ?thesis using h1 h2 h3 h4 h5 a b c by simp
qed

section \<open>The memoizing wrapper\<close>

lemma dumps_error:
  "dumps v = Inl e \<Longrightarrow> e = TypeError"
  "dumps_list xs = Inl e \<Longrightarrow> e = TypeError"
  "dumps_items kvs = Inl e \<Longrightarrow> e = TypeError"
  by (induction v and xs and kvs rule: dumps_dumps_list_dumps_items.induct)
     (auto split: sum.splits)

lemma encode_value_error: "\<not> serializable v \<Longrightarrow> encode_value v = Inl TypeError"
  using dumps_error(1) [of v] by (auto simp: encode_value_eq serializable_def split: sum.splits)

lemma get_no_save_state: "snd (get t k D False s) = s"
  by (simp add: get_def split: option.splits list.splits)

lemma kv_init: "kv (init db) = db"
  by (simp add: init_def)


lemma wrapper_miss:
  assumes "hash_function_args sha1 args kwargs = Inr h"
    and "fst (get t_get (memo_key (hash_function_name sha1 func) h) PNone False (init db)) = Inr PNone"
  shows "wrapper sha1 ttl_seconds func t_get t_put args kwargs db =
           (case func_call func args kwargs of
              Inl e \<Rightarrow> (Inl e, 1, db)
            | Inr result \<Rightarrow>
                (case put t_put (memo_key (hash_function_name sha1 func) h) result (Some ttl_seconds) (init db) of
                   (Inl e, s2) \<Rightarrow> (Inl e, 1, kv s2)
                 | (Inr u, s2) \<Rightarrow> (Inr result, 1, kv s2)))"
proof -
  have "get t_get (memo_key (hash_function_name sha1 func) h) PNone False (init db) = (Inr PNone, init db)"
    using assms(2) get_no_save_state [of t_get "memo_key (hash_function_name sha1 func) h" PNone "init db"]
    by (metis prod.collapse)
  then show ?thesis
    using assms(1) by (simp add: wrapper_def kv_init split: sum.splits)
qed


text \<open>
  C2, as the code has it: when the lookup of the wrapper is a miss and the wrapped function
  returns a value that \<open>json.dumps\<close> rejects, the function has been invoked once, the
  wrapper raises \<open>TypeError\<close> out of \<open>kv.put\<close> instead of returning the value, and
  the table is unchanged. This holds for every hash function.
\<close>

theorem wrapper_unserializable_result:
  assumes "hash_function_args sha1 args kwargs = Inr h"
    and "fst (get t_get (memo_key (hash_function_name sha1 func) h) PNone False (init db)) = Inr PNone"
    and "func_call func args kwargs = Inr result"
    and "\<not> serializable result"
  shows "wrapper sha1 ttl_seconds func t_get t_put args kwargs db = (Inl TypeError, 1, db)"
  using wrapper_miss [OF assms(1,2)] assms(3) encode_value_error [OF assms(4)]
  by (simp add: put_def kv_init)

text \<open>The claim C2 as stated fails: the wrapped function returns an object that is not
  serializable, and the wrapper raises \<open>TypeError\<close> instead of returning it. The hash
  function plays no part in the outcome; the identity stands in for it.\<close>

theorem wrapper_unserializable_result_counterexample:
  "wrapper id 60 (const_func (PObject 0)) 0 0 [PInt 1] [] [] = (Inl TypeError, 1, []) \<and>
   func_call (const_func (PObject 0)) [PInt 1] [] = Inr (PObject 0) \<and>
   fst (wrapper id 60 (const_func (PObject 0)) 0 0 [PInt 1] [] []) \<noteq> Inr (PObject 0)"
  by code_simp

theorem wrapper_unserializable_result_witness:
  "hash_function_args id [PInt 1] [] = Inr ''[1]-{}'' \<and>
   fst (get 0 (memo_key (hash_function_name id (const_func (PObject 0))) ''[1]-{}'') PNone False (init [])) = Inr PNone \<and>
   func_call (const_func (PObject 0)) [PInt 1] [] = Inr (PObject 0) \<and>
   \<not> serializable (PObject 0) \<and>
   wrapper id 60 (const_func (PObject 0)) 0 0 [PInt 1] [] [] = (Inl TypeError, 1, [])"
proof -
  have h1: "hash_function_args id [PInt 1] [] = Inr ''[1]-{}''" by code_simp
  have h2: "fst (get 0 (memo_key (hash_function_name id (const_func (PObject 0))) ''[1]-{}'') PNone False (init [])) = Inr PNone"
    by code_simp
  have h3: "func_call (const_func (PObject 0)) [PInt 1] [] = Inr (PObject 0)"
    by (simp add: const_func_def)
  have h4: "\<not> serializable (PObject 0)" by (simp add: serializable_def)
  show ?thesis
    using h1 h2 h3 h4 wrapper_unserializable_result [OF h1 h2 h3 h4, where ttl_seconds = 60 and t_put = 0]
    by simp
qed








end
